theory Spec2Isabelle
  imports Main "HOL-Library.Word" "HOL-Library.Code_Target_Numeral"
begin

unbundle bit_operations_syntax

section \<open>VORTEX-V512 v1.0: the data model\<close>

text \<open>
  The program is \<^verbatim>\<open>vortex_v512_v1.py\<close>. Its arrays are numpy arrays of
  \<^verbatim>\<open>uint64\<close>: a lane is a 64-bit word, on which \<open>+\<close> wraps. The input is a
  Python \<^verbatim>\<open>bytes\<close> object: a list of 8-bit words. Loop counters are Python
  integers running over a \<^verbatim>\<open>range\<close>, hence natural numbers.
\<close>

type_synonym u64 = "64 word"
type_synonym byte = "8 word"

text \<open>The exceptions the top-level function can raise through the calls it makes.\<close>

datatype error = IndexError | ValueError

text \<open>Lines 23-28: the initialization vector.\<close>

definition VORTEX_IV :: "u64 list" where
  "VORTEX_IV =
    [0x6a09e667f3bcc908, 0xbb67ae8584caa73b, 0x3c6ef372fe94f82b, 0xa54ff53a5f1d36f1,
     0x510e527fade682d1, 0x9b05688c2b3e6c1f, 0x1f83d9abfb41bd6b, 0x5be0cd19137e2179,
     0x428a2f98d728ae22, 0x7137449123ef65cd, 0xb5c0fbcfe4d3b2f, 0xe9b5dba58189dbbc,
     0x3956c25bf348b538, 0x59f111f1b605d019, 0x923f82a4af194f9b, 0xab1c5ed5da6d8118]"

text \<open>Lines 31-35: the round constants.\<close>

definition RC :: "u64 list" where
  "RC =
    [0x243f6a8885a308d3, 0x13198a2e03707344, 0xa4093822299f31d0, 0x082efa98ec4e6c89,
     0x452821e638d01377, 0xbe5466cf34e90c6c, 0xc0ac29b7c97c50dd, 0x3f84d5b5b5470917,
     0x9216d5d98979fb1b, 0xd1310ba698dfb5ac, 0x2ff72e1e2138591c, 0xb62d3e9b13c1bcc9]"

section \<open>The rotation primitive\<close>

text \<open>
  Lines 37-40. The function is compiled with the signature
  \<^verbatim>\<open>uint64(uint64, uint64)\<close>: the rotation amount is itself a 64-bit word, so
  \<^verbatim>\<open>64 - r\<close> wraps below zero and \<^verbatim>\<open>& 63\<close> keeps its six low bits.
  \<^verbatim>\<open>return ((x << (r & 63)) | (x >> ((64 - r) & 63))) & 0xFFFFFFFFFFFFFFFF\<close>
\<close>

definition rotl :: "u64 \<Rightarrow> u64 \<Rightarrow> u64" where
  "rotl x r =
     (push_bit (unat (r AND 63)) x OR drop_bit (unat ((64 - r) AND 63)) x)
       AND 0xFFFFFFFFFFFFFFFF"

section \<open>The permutation engine\<close>

text \<open>Line 56: \<^verbatim>\<open>offset = (r % 7) + 1\<close>.\<close>

definition offset :: "nat \<Rightarrow> nat" where
  "offset r = (r mod 7) + 1"

text \<open>Line 58: \<^verbatim>\<open>target = (i + offset) % 16\<close>.\<close>

definition target :: "nat \<Rightarrow> nat \<Rightarrow> nat" where
  "target r i = (i + offset r) mod 16"

text \<open>
  Lines 42-66, \<^verbatim>\<open>vortex_p(s)\<close>. The array \<^verbatim>\<open>s\<close> is mutated in place; the model
  passes the state and returns the new one, one list update for each assignment of
  the source, each reading the array as the previous assignment left it. The compiled
  code does no bounds checking; every index below is less than 16 (and the index into
  \<^verbatim>\<open>RC\<close> less than 12), and the only arrays the program passes have 16 lanes,
  which is the hypothesis of the theorems about this function.
\<close>

text \<open>Lines 51-52: \<^verbatim>\<open>s[0] ^= RC[r]\<close>, \<^verbatim>\<open>s[15] ^= rotl(RC[r], r + 7)\<close>.\<close>

definition inject :: "nat \<Rightarrow> u64 list \<Rightarrow> u64 list" where
  "inject r s =
     (let s = s[0 := s ! 0 XOR RC ! r];
          s = s[15 := s ! 15 XOR rotl (RC ! r) (of_nat (r + 7))]
      in s)"

text \<open>
  Lines 58-62, the body of the butterfly loop:
  \<^verbatim>\<open>s[i] = (s[i] + s[target]) & 0xFFFFFFFFFFFFFFFF\<close>,
  \<^verbatim>\<open>s[target] ^= s[i]\<close>,
  \<^verbatim>\<open>s[target] = rotl(s[target], 19 + i + r)\<close>.
\<close>

definition mix :: "nat \<Rightarrow> nat \<Rightarrow> u64 list \<Rightarrow> u64 list" where
  "mix r i s =
     (let tgt = target r i;
          s = s[i := (s ! i + s ! tgt) AND 0xFFFFFFFFFFFFFFFF];
          s = s[tgt := s ! tgt XOR s ! i];
          s = s[tgt := rotl (s ! tgt) (of_nat (19 + i + r))]
      in s)"

text \<open>Line 66, the body of the diffusion loop: \<^verbatim>\<open>s[i+1] ^= rotl(s[i], 11)\<close>.\<close>

definition shred :: "nat \<Rightarrow> u64 list \<Rightarrow> u64 list" where
  "shred i s = s[i + 1 := s ! (i + 1) XOR rotl (s ! i) 11]"

text \<open>Lines 50-66, the body of the round loop.\<close>

definition vortex_round :: "nat \<Rightarrow> u64 list \<Rightarrow> u64 list" where
  "vortex_round r s =
     (let s = inject r s;
          s = fold (mix r) [0..<16] s;
          s = fold shred [0..<15] s
      in s)"

text \<open>Line 49: \<^verbatim>\<open>for r in range(12)\<close>.\<close>

definition vortex_p :: "u64 list \<Rightarrow> u64 list" where
  "vortex_p s = fold vortex_round [0..<12] s"

section \<open>The absorbing loop\<close>

text \<open>
  Lines 68-76. \<^verbatim>\<open>words\<close> is only read. Every index \<^verbatim>\<open>idx + j\<close> is less than
  \<^verbatim>\<open>8 * (len(words) // 8)\<close>, hence in range.
\<close>

definition absorb_block :: "u64 list \<Rightarrow> nat \<Rightarrow> u64 list \<Rightarrow> u64 list" where
  "absorb_block words i state =
     (let idx = i * 8;
          state = fold (\<lambda>j state. state[j := state ! j XOR words ! (idx + j)]) [0..<8] state
      in vortex_p state)"

definition vortex_core_absorb :: "u64 list \<Rightarrow> u64 list \<Rightarrow> u64 list" where
  "vortex_core_absorb state words =
     (let num_blocks = length words div 8
      in fold (absorb_block words) [0..<num_blocks] state)"

section \<open>Padding, encoding and the digest\<close>

text \<open>
  Lines 86-90. \<^verbatim>\<open>len(padded) % 64\<close> is less than 64, so the subtraction never goes
  below 1. \<^verbatim>\<open>p_list[-1]\<close> raises \<^verbatim>\<open>IndexError\<close> on an empty list. The elements of
  \<^verbatim>\<open>p_list\<close> are bytes, and a byte ORed with \<^verbatim>\<open>0x80\<close> is a byte, so
  \<^verbatim>\<open>bytes(p_list)\<close> on line 93 accepts every element.
\<close>

definition padded_buffer :: "byte list \<Rightarrow> error + byte list" where
  "padded_buffer data =
     (let padded = data @ [0x06];
          pad_len = (64 - (length padded mod 64)) mod 64;
          padded = padded @ replicate pad_len 0;
          p_list = padded
      in if p_list = [] then Inl IndexError
         else Inr (p_list[length p_list - 1 := p_list ! (length p_list - 1) OR 0x80]))"

text \<open>
  Line 93, \<^verbatim>\<open>np.frombuffer(buf, dtype='>u8').astype(np.uint64)\<close>: numpy raises
  \<^verbatim>\<open>ValueError\<close> when the buffer size is not a multiple of the element size (8),
  and otherwise reads each 8 bytes with the first byte the most significant. The
  conversion to the native byte order keeps the values.
\<close>

definition be_u64 :: "byte list \<Rightarrow> u64" where
  "be_u64 bs = foldl (\<lambda>acc b. push_bit 8 acc OR ucast b) 0 bs"

definition frombuffer_be_u64 :: "byte list \<Rightarrow> error + u64 list" where
  "frombuffer_be_u64 buf =
     (if length buf mod 8 \<noteq> 0 then Inl ValueError
      else Inr (map (\<lambda>k. be_u64 (take 8 (drop (8 * k) buf))) [0..<length buf div 8]))"

text \<open>
  Line 99, the format specification \<^verbatim>\<open>016x\<close> on a non-negative integer: its
  lowercase hexadecimal digits without leading zeros (\<^verbatim>\<open>0\<close> for zero), filled
  with \<^verbatim>\<open>0\<close> on the left up to 16 characters.
\<close>

definition hex_digit :: "nat \<Rightarrow> char" where
  "hex_digit d = ''0123456789abcdef'' ! d"

function hex_of_nat :: "nat \<Rightarrow> string" where
  "hex_of_nat n =
     (if n < 16 then [hex_digit n] else hex_of_nat (n div 16) @ [hex_digit (n mod 16)])"
  by pat_completeness auto
termination
  by (relation "measure id") auto

declare hex_of_nat.simps [simp del]

definition format_016x :: "nat \<Rightarrow> string" where
  "format_016x n = replicate (16 - length (hex_of_nat n)) CHR ''0'' @ hex_of_nat n"

text \<open>Lines 78-99. \<^verbatim>\<open>VORTEX_IV.copy()\<close> is a new array holding the values of the IV.\<close>

definition vortex_v512_v1 :: "byte list \<Rightarrow> error + string" where
  "vortex_v512_v1 data =
     (let state = VORTEX_IV
      in case padded_buffer data of
           Inl e \<Rightarrow> Inl e
         | Inr p_list \<Rightarrow>
             (case frombuffer_be_u64 p_list of
                Inl e \<Rightarrow> Inl e
              | Inr words \<Rightarrow>
                  (let state = vortex_core_absorb state words;
                       state = vortex_p state
                   in Inr (concat (map (\<lambda>x. format_016x (unat x)) (take 8 state))))))"

section \<open>The padding and the encoding, in the words of the specification\<close>

text \<open>
  The padded buffer as the specification describes it: the input, one byte \<open>0x06\<close>,
  \<open>padLen\<close> zero bytes, and the last byte of the whole replaced by its bitwise OR
  with \<open>0x80\<close>. A word of the stream is the big-endian value of 8 consecutive bytes.
\<close>

definition spec_pad_len :: "nat \<Rightarrow> nat" where
  "spec_pad_len n = (64 - ((n + 1) mod 64)) mod 64"

definition spec_padded :: "byte list \<Rightarrow> byte list" where
  "spec_padded x =
     (let b = x @ [0x06] @ replicate (spec_pad_len (length x)) 0
      in butlast b @ [last b OR 0x80])"

definition spec_be_word :: "byte list \<Rightarrow> nat \<Rightarrow> u64" where
  "spec_be_word buf k = word_of_nat (\<Sum>j\<leftarrow>[0..<8]. unat (buf ! (8 * k + j)) * 256 ^ (7 - j))"

section \<open>The permutation engine, in the words of the specification\<close>

text \<open>
  One round \<open>r\<close> as the specification describes it: the constant injection; then, for
  \<open>i\<close> from 0 to 15, the pair step on lanes \<open>i\<close> and \<open>(i + (r mod 7) + 1) mod 16\<close>,
  whose sum is taken modulo \<open>2 ^ 64\<close> and whose rotation is the left rotation of
  64-bit words; then, for \<open>i\<close> from 0 to 14, the diffusion step. The permutation is the
  rounds 0 to 11 in order.
\<close>

definition spec_inject :: "nat \<Rightarrow> u64 list \<Rightarrow> u64 list" where
  "spec_inject r s = s[0 := s ! 0 XOR RC ! r, 15 := s ! 15 XOR word_rotl (r + 7) (RC ! r)]"

definition spec_pair :: "nat \<Rightarrow> nat \<Rightarrow> u64 list \<Rightarrow> u64 list" where
  "spec_pair r i s =
     (let tgt = (i + ((r mod 7) + 1)) mod 16;
          a = word_of_nat ((unat (s ! i) + unat (s ! tgt)) mod 2 ^ 64);
          b = word_rotl ((19 + i + r) mod 64) (s ! tgt XOR a)
      in s[i := a, tgt := b])"

definition spec_diffuse :: "nat \<Rightarrow> u64 list \<Rightarrow> u64 list" where
  "spec_diffuse i s = s[i + 1 := s ! (i + 1) XOR word_rotl 11 (s ! i)]"

definition spec_round :: "nat \<Rightarrow> u64 list \<Rightarrow> u64 list" where
  "spec_round r s =
     fold spec_diffuse [0..<15] (fold (spec_pair r) [0..<16] (spec_inject r s))"

definition spec_permutation :: "u64 list \<Rightarrow> u64 list" where
  "spec_permutation s = fold spec_round [0..<12] s"

section \<open>The sponge and the digest, in the words of the specification\<close>

text \<open>
  The word stream of an input is the big-endian reading of its padded buffer. It is cut
  into consecutive blocks of 8 words. Absorbing a block XORs its 8 words into lanes
  0..7 and runs the permutation once; after the last block the permutation runs once
  more. A lane is rendered as its 16 hexadecimal digits, the most significant first.
\<close>

definition word_stream :: "byte list \<Rightarrow> u64 list" where
  "word_stream x = map (spec_be_word (spec_padded x)) [0..<length (spec_padded x) div 8]"

definition spec_blocks :: "u64 list \<Rightarrow> u64 list list" where
  "spec_blocks ws = map (\<lambda>k. take 8 (drop (8 * k) ws)) [0..<length ws div 8]"

definition spec_xor_block :: "u64 list \<Rightarrow> u64 list \<Rightarrow> u64 list" where
  "spec_xor_block blk st = map2 (XOR) (take 8 st) blk @ drop 8 st"

definition spec_absorb :: "u64 list \<Rightarrow> u64 list list \<Rightarrow> u64 list" where
  "spec_absorb st blks = fold (\<lambda>blk st. vortex_p (spec_xor_block blk st)) blks st"

definition spec_sponge :: "u64 list \<Rightarrow> u64 list" where
  "spec_sponge ws = vortex_p (spec_absorb VORTEX_IV (spec_blocks ws))"

text \<open>
  The lowercase hexadecimal alphabet, by character codes: the digit values 0 to 9 are
  the characters from \<open>0\<close> on, the digit values 10 to 15 the characters from \<open>a\<close> on.
\<close>

definition spec_hex_char :: "nat \<Rightarrow> char" where
  "spec_hex_char d =
     (if d < 10 then char_of (of_char CHR ''0'' + d)
      else char_of (of_char CHR ''a'' + (d - 10)))"

definition spec_hex16 :: "u64 \<Rightarrow> string" where
  "spec_hex16 w = map (\<lambda>k. spec_hex_char ((unat w div 16 ^ (15 - k)) mod 16)) [0..<16]"

text \<open>The \<open>k\<close> low hexadecimal digits of \<open>n\<close>, the most significant first.\<close>

definition digits :: "nat \<Rightarrow> nat \<Rightarrow> string" where
  "digits k n = map (\<lambda>j. hex_digit ((n div 16 ^ (k - 1 - j)) mod 16)) [0..<k]"

section \<open>The arrays in memory\<close>

text \<open>
  A numpy array is an object: \<^verbatim>\<open>vortex_p\<close> and \<^verbatim>\<open>vortex_core_absorb\<close> receive the
  state by reference and write into it, and \<^verbatim>\<open>VORTEX_IV\<close> and \<^verbatim>\<open>RC\<close> are two
  global arrays. To say what a digest computation does to them, the functions are
  modelled a second time on a store: a list of arrays, in which an array's address is
  its position. The module's initialization (lines 23-35) leaves \<^verbatim>\<open>VORTEX_IV\<close> at
  address 0 and \<^verbatim>\<open>RC\<close> at address 1. \<open>load\<close> is the read \<^verbatim>\<open>a[i]\<close>, \<open>poke\<close> the
  assignment \<^verbatim>\<open>a[i] = v\<close>, and \<open>copy\<close> the method \<^verbatim>\<open>a.copy()\<close>, which allocates
  a new array. The functions below are the source's, line by line, with every read of
  \<^verbatim>\<open>RC[r]\<close> a read of the store. \<^verbatim>\<open>words\<close> is only read and stays a value.
\<close>

type_synonym store = "u64 list list"

definition IV_addr :: nat where
  "IV_addr = 0"

definition RC_addr :: nat where
  "RC_addr = 1"

definition init_store :: store where
  "init_store = [VORTEX_IV, RC]"

text \<open>The two tables hold the values the module gave them.\<close>

definition globals_ok :: "store \<Rightarrow> bool" where
  "globals_ok h = (2 \<le> length h \<and> h ! IV_addr = VORTEX_IV \<and> h ! RC_addr = RC)"

definition load :: "store \<Rightarrow> nat \<Rightarrow> nat \<Rightarrow> u64" where
  "load h a i = h ! a ! i"

definition poke :: "store \<Rightarrow> nat \<Rightarrow> nat \<Rightarrow> u64 \<Rightarrow> store" where
  "poke h a i v = h[a := (h ! a)[i := v]]"

definition copy :: "store \<Rightarrow> nat \<Rightarrow> nat \<times> store" where
  "copy h a = (length h, h @ [h ! a])"

definition inject_st :: "nat \<Rightarrow> nat \<Rightarrow> store \<Rightarrow> store" where
  "inject_st s r h =
     (let h = poke h s 0 (load h s 0 XOR load h RC_addr r);
          h = poke h s 15 (load h s 15 XOR rotl (load h RC_addr r) (of_nat (r + 7)))
      in h)"

definition mix_st :: "nat \<Rightarrow> nat \<Rightarrow> nat \<Rightarrow> store \<Rightarrow> store" where
  "mix_st s r i h =
     (let tgt = target r i;
          h = poke h s i ((load h s i + load h s tgt) AND 0xFFFFFFFFFFFFFFFF);
          h = poke h s tgt (load h s tgt XOR load h s i);
          h = poke h s tgt (rotl (load h s tgt) (of_nat (19 + i + r)))
      in h)"

definition shred_st :: "nat \<Rightarrow> nat \<Rightarrow> store \<Rightarrow> store" where
  "shred_st s i h = poke h s (i + 1) (load h s (i + 1) XOR rotl (load h s i) 11)"

definition vortex_round_st :: "nat \<Rightarrow> nat \<Rightarrow> store \<Rightarrow> store" where
  "vortex_round_st s r h =
     (let h = inject_st s r h;
          h = fold (mix_st s r) [0..<16] h;
          h = fold (shred_st s) [0..<15] h
      in h)"

definition vortex_p_st :: "nat \<Rightarrow> store \<Rightarrow> store" where
  "vortex_p_st s h = fold (vortex_round_st s) [0..<12] h"

definition absorb_block_st :: "nat \<Rightarrow> u64 list \<Rightarrow> nat \<Rightarrow> store \<Rightarrow> store" where
  "absorb_block_st state words i h =
     (let idx = i * 8;
          h = fold (\<lambda>j h. poke h state j (load h state j XOR words ! (idx + j))) [0..<8] h
      in vortex_p_st state h)"

definition vortex_core_absorb_st :: "nat \<Rightarrow> u64 list \<Rightarrow> store \<Rightarrow> store" where
  "vortex_core_absorb_st state words h =
     (let num_blocks = length words div 8
      in fold (absorb_block_st state words) [0..<num_blocks] h)"

definition vortex_v512_v1_st :: "byte list \<Rightarrow> store \<Rightarrow> (error + string) \<times> store" where
  "vortex_v512_v1_st data h =
     (let (state, h) = copy h IV_addr
      in case padded_buffer data of
           Inl e \<Rightarrow> (Inl e, h)
         | Inr p_list \<Rightarrow>
             (case frombuffer_be_u64 p_list of
                Inl e \<Rightarrow> (Inl e, h)
              | Inr words \<Rightarrow>
                  (let h = vortex_core_absorb_st state words h;
                       h = vortex_p_st state h
                   in (Inr (concat (map (\<lambda>x. format_016x (unat x)) (take 8 (h ! state)))), h))))"

text \<open>
  The permutation runs on the array at address \<open>s\<close> of a store in which that array is
  not the table \<^verbatim>\<open>RC\<close>, and \<^verbatim>\<open>RC\<close> holds the round constants.
\<close>

definition runs_on :: "nat \<Rightarrow> store \<Rightarrow> bool" where
  "runs_on s h = (s < length h \<and> s \<noteq> RC_addr \<and> RC_addr < length h \<and> h ! RC_addr = RC)"

section \<open>The rotation primitive is the left rotation\<close>

lemma and63: "unat ((r::u64) AND 63) = unat r mod 64"
proof -
  have "(r AND 63) = take_bit 6 r"
    using take_bit_eq_mask [of 6 r] by (simp add: mask_eq_exp_minus_1)
  then show ?thesis by (simp add: unsigned_take_bit_eq take_bit_eq_mod unat_mod)
qed

lemma nat_neg_mod64:
  "0 \<le> m \<Longrightarrow> m < 64 \<Longrightarrow> nat ((64 - m) mod 64) = (64 - nat m) mod 64" for m :: int
proof (cases "m = 0")
  case True
  then show ?thesis by simp
next
  case False
  assume "0 \<le> m" "m < 64"
  with False have "(64 - m) mod 64 = 64 - m" by (intro mod_pos_pos_trivial) simp_all
  moreover from False \<open>0 \<le> m\<close> \<open>m < 64\<close> have "(64 - nat m) mod 64 = 64 - nat m" by simp
  ultimately show ?thesis using \<open>0 \<le> m\<close> by (simp add: nat_diff_distrib)
qed

lemma int_sub_mod64: "nat ((64 - int n) mod 64) = (64 - n mod 64) mod 64"
proof -
  define m where "m = int n mod 64"
  have m: "0 \<le> m" "m < 64" by (simp_all add: m_def)
  have "(64 - int n) mod 64 = (64 - m) mod 64"
    unfolding m_def by (rule mod_diff_right_eq [symmetric])
  moreover have "n mod 64 = nat m" unfolding m_def by (simp add: nat_mod_distrib)
  ultimately show ?thesis using nat_neg_mod64 [OF m] by simp
qed

lemma sub63: "unat ((64 - (r::u64)) AND 63) = (64 - unat r mod 64) mod 64"
proof -
  have "unat ((64 - r) AND 63) = unat (64 - r) mod 64" by (rule and63)
  also have "\<dots> = nat (uint (64 - r) mod 64)"
    by (simp add: nat_mod_distrib)
  also have "uint (64 - r) mod 64 = (64 - uint r) mod 64"
  proof -
    have "uint (64 - r) = (64 - uint r) mod 2 ^ 64" by (simp add: uint_word_ariths)
    then have "uint (64 - r) mod 64 = ((64 - uint r) mod 2 ^ 64) mod 64" by simp
    also have "\<dots> = (64 - uint r) mod 64" by (rule mod_mod_cancel) simp
    finally show ?thesis .
  qed
  also have "nat ((64 - uint r) mod 64) = (64 - unat r mod 64) mod 64"
    using int_sub_mod64 [of "unat r"] by simp
  finally show ?thesis .
qed

lemma mask64: "(x::u64) AND 0xFFFFFFFFFFFFFFFF = x"
proof -
  have "(0xFFFFFFFFFFFFFFFF :: u64) = - 1" by simp
  then show ?thesis by (simp only: and.right_neutral)
qed

lemma rotl_shifts:
  "rotl x r = push_bit (unat r mod 64) x OR drop_bit ((64 - unat r mod 64) mod 64) x"
  by (simp only: rotl_def sub63 mask64) (simp only: and63)

lemma shifts_word_rotl:
  assumes "k < 64"
  shows "push_bit k x OR drop_bit ((64 - k) mod 64) x = word_rotl k (x::u64)"
proof (cases "k = 0")
  case True
  then show ?thesis by (intro bit_word_eqI) (simp add: bit_simps)
next
  case False
  define j where "j = 64 - k"
  from False assms have j: "(64 - k) mod 64 = j" "k mod 64 = k" "0 < j" "j < 64" "k = 64 - j"
    by (simp_all add: j_def)
  show ?thesis
  proof (rule bit_word_eqI)
    fix n assume "n < LENGTH(64)"
    then have n: "n < 64" by simp
    have rot: "bit (word_rotl k x) n = bit x ((n + j) mod 64)"
      using n by (simp add: bit_word_rotl_iff j(2) j_def)
    have psh: "bit (push_bit k x) n = (k \<le> n \<and> bit x (n - k))"
      using n by (simp add: bit_push_bit_iff)
    have drp: "bit (drop_bit j x) n = bit x (j + n)"
      by (simp add: bit_drop_bit_eq)
    show "bit (push_bit k x OR drop_bit ((64 - k) mod 64) x) n = bit (word_rotl k x) n"
    proof (cases "k \<le> n")
      case True
      then have "64 \<le> j + n" using j by simp
      then have "\<not> bit x (j + n)" using bit_imp_le_length [of x "j + n"] by auto
      moreover have "(n + j) mod 64 = n - k" using True j n by (simp add: mod_if)
      ultimately show ?thesis using True by (simp add: bit_or_iff j(1) rot psh drp)
    next
      case False
      then have "(n + j) mod 64 = j + n" using j n by simp
      then show ?thesis using False by (simp add: bit_or_iff j(1) rot psh drp)
    qed
  qed
qed

lemma rotl_word_rotl: "rotl x r = word_rotl (unat r mod 64) x"
  by (simp add: rotl_shifts shifts_word_rotl)

lemma word_rotl_mod: "word_rotl (k mod 64) (x::u64) = word_rotl k x"
  by (rule bit_word_eqI) (simp add: bit_simps)

lemma rotl_of_nat: "rotl x (of_nat k) = word_rotl k x"
  by (simp add: rotl_word_rotl unat_of_nat word_rotl_mod mod_mod_cancel)

lemma rotl_zero: "rotl x 0 = x"
  by (simp add: rotl_word_rotl) (intro bit_word_eqI, simp add: bit_simps)

lemma unat_rotl_shifts:
  "unat (rotl x r)
   = (push_bit (unat r mod 64) (unat x) OR drop_bit (nat ((64 - int (unat r)) mod 64)) (unat x))
       mod 2 ^ 64"
proof -
  let ?k = "unat r mod 64" and ?j = "(64 - unat r mod 64) mod 64"
  have d: "take_bit 64 (drop_bit ?j (unat x)) = drop_bit ?j (unat x)"
  proof (rule take_bit_nat_eq_self)
    have "drop_bit ?j (unat x) \<le> unat x" by (simp add: drop_bit_eq_div)
    also have "unat x < 2 ^ 64" using unsigned_less [of x] by simp
    finally show "drop_bit ?j (unat x) < 2 ^ 64" .
  qed
  have tx: "take_bit 64 (unat x) = unat x"
    by (rule take_bit_nat_eq_self) (use unsigned_less [of x] in simp)
  have "unat (rotl x r) = unat (push_bit ?k x) OR unat (drop_bit ?j x)"
    by (simp only: rotl_shifts unsigned_or_eq)
  also have "\<dots> = take_bit 64 (push_bit ?k (unat x)) OR drop_bit ?j (unat x)"
    by (simp add: unsigned_push_bit_eq unsigned_drop_bit_eq tx)
  also have "\<dots> = take_bit 64 (push_bit ?k (unat x) OR drop_bit ?j (unat x))"
    by (simp only: take_bit_or d)
  finally show ?thesis by (simp only: int_sub_mod64 take_bit_eq_mod)
qed

text \<open>
  Claim C6. For every 64-bit word \<open>x\<close> and every rotation amount \<open>r\<close>, \<open>rotl x r\<close> is
  \<open>(x << (r mod 64)) | (x >> ((64 - r) mod 64))\<close> at 64-bit width, which is the left
  rotation of \<open>x\<close> by \<open>r mod 64\<close> bits; \<open>rotl x 0 = x\<close>; and the result is less than
  \<open>2 ^ 64\<close>. The formula is stated on 64-bit words and on the unbounded integers the
  words stand for, where the reduction to 64 bits is \<open>mod 2 ^ 64\<close>.
\<close>

theorem rotl_left_rotation:
  "rotl x r = push_bit (unat r mod 64) x OR drop_bit (nat ((64 - int (unat r)) mod 64)) x
   \<and> unat (rotl x r)
       = (push_bit (unat r mod 64) (unat x) OR drop_bit (nat ((64 - int (unat r)) mod 64)) (unat x))
           mod 2 ^ 64
   \<and> rotl x r = word_rotl (unat r mod 64) x
   \<and> rotl x 0 = x
   \<and> unat (rotl x r) < 2 ^ 64"
proof (intro conjI)
  show "rotl x r = push_bit (unat r mod 64) x OR drop_bit (nat ((64 - int (unat r)) mod 64)) x"
    by (simp only: int_sub_mod64 rotl_shifts)
  show "unat (rotl x r)
       = (push_bit (unat r mod 64) (unat x) OR drop_bit (nat ((64 - int (unat r)) mod 64)) (unat x))
           mod 2 ^ 64"
    by (rule unat_rotl_shifts)
  show "rotl x r = word_rotl (unat r mod 64) x" by (rule rotl_word_rotl)
  show "rotl x 0 = x" by (rule rotl_zero)
  show "unat (rotl x r) < 2 ^ 64" using unsigned_less [of "rotl x r"] by simp
qed

section \<open>No lane is paired with itself\<close>

lemma pair_neq: "0 < d \<Longrightarrow> d < 16 \<Longrightarrow> i < 16 \<Longrightarrow> (i + d) mod 16 \<noteq> (i::nat)"
proof (cases "i + d < 16")
  case True
  assume "0 < d"
  with True show ?thesis by simp
next
  case False
  assume "d < 16" "i < 16"
  with False have "(i + d) mod 16 = i + d - 16" by (simp add: le_mod_geq)
  with False \<open>d < 16\<close> show ?thesis by arith
qed

lemma target_neq: "i < 16 \<Longrightarrow> target r i \<noteq> i"
  unfolding target_def by (rule pair_neq) (simp_all add: offset_def)

lemma target_less: "target r i < 16"
  by (simp add: target_def)

text \<open>
  Claim C7. For every round \<open>r\<close> in 0..11 and every lane \<open>i\<close> in 0..15, the partner
  \<open>(i + (r mod 7) + 1) mod 16\<close> of the butterfly step is not \<open>i\<close>.
\<close>

theorem no_self_pairing:
  "r < 12 \<Longrightarrow> i < 16 \<Longrightarrow> target r i = (i + (r mod 7) + 1) mod 16 \<and> target r i \<noteq> i"
  using target_neq [of i r] by (simp add: target_def offset_def add.assoc)

theorem no_self_pairing_witness:
  "(11::nat) < 12 \<and> (15::nat) < 16 \<and> target 11 15 = 4 \<and> target 11 15 \<noteq> 15"
  using no_self_pairing [of 11 15] by (simp add: target_def offset_def)

section \<open>Padding and encoding\<close>

lemma set_last: "xs \<noteq> [] \<Longrightarrow> xs[length xs - 1 := f (xs ! (length xs - 1))] = butlast xs @ [f (last xs)]"
  by (induction xs rule: rev_induct) (simp_all add: nth_append)

lemma padded_buffer_spec: "padded_buffer x = Inr (spec_padded x)"
  unfolding padded_buffer_def spec_padded_def Let_def spec_pad_len_def
  using set_last [of "(x @ [6]) @ replicate ((64 - length (x @ [6]) mod 64) mod 64) 0" "\<lambda>b. b OR 0x80"]
  by simp

lemma pad_total: "(n + (64 - n mod 64) mod 64) mod 64 = (0::nat)"
proof -
  have "n mod 64 < 64" by simp
  then have "(n mod 64 + (64 - n mod 64) mod 64) mod 64 = 0"
    by (cases "n mod 64 = 0") simp_all
  then show ?thesis by (metis mod_add_left_eq)
qed

lemma length_spec_padded: "length (spec_padded x) = length x + 1 + spec_pad_len (length x)"
  by (simp add: spec_padded_def Let_def)

lemma spec_padded_mod64: "length (spec_padded x) mod 64 = 0"
  unfolding length_spec_padded spec_pad_len_def by (rule pad_total)

lemma shift_or_byte: "push_bit 8 (acc::u64) OR ucast (b::byte) = acc * 256 + of_nat (unat b)"
proof -
  have "push_bit 8 acc + ucast b = push_bit 8 acc OR ucast b"
    by (rule disjunctive_add) (auto simp: bit_simps dest: bit_imp_le_length)
  then show ?thesis by (simp add: push_bit_eq_mult)
qed

lemma upt8: "[0..<8] = [0,1,2,3,4,5,6,7]"
  by code_simp

lemma chunk8: "8 * k + 8 \<le> length buf \<Longrightarrow> take 8 (drop (8 * k) buf) = map (\<lambda>j. buf ! (8 * k + j)) [0..<8]"
  by (rule nth_equalityI) (simp_all)

lemma be_u64_chunk:
  assumes "8 * k + 8 \<le> length buf"
  shows "be_u64 (take 8 (drop (8 * k) buf)) = spec_be_word buf k"
  unfolding chunk8 [OF assms] be_u64_def spec_be_word_def shift_or_byte upt8
  by (simp add: algebra_simps)


lemma frombuffer_spec:
  assumes "length buf mod 8 = 0"
  shows "frombuffer_be_u64 buf = Inr (map (spec_be_word buf) [0..<length buf div 8])"
proof -
  have "be_u64 (take 8 (drop (8 * k) buf)) = spec_be_word buf k" if "k < length buf div 8" for k
  proof -
    from that have "Suc k \<le> length buf div 8" by simp
    then have "8 * Suc k \<le> length buf" using assms by (metis mult.commute div_mult_mod_eq add.right_neutral mult_le_mono2)
    then show ?thesis by (intro be_u64_chunk) simp
  qed
  then show ?thesis using assms by (simp add: frombuffer_be_u64_def)
qed

lemma spec_padded_mod8: "length (spec_padded x) mod 8 = 0"
proof -
  have "length (spec_padded x) mod 64 mod 8 = 0" by (simp add: spec_padded_mod64)
  then show ?thesis by (simp add: mod_mod_cancel)
qed

text \<open>
  Claim C3. For every byte sequence \<open>x\<close> the padded buffer is \<open>x\<close>, then the byte
  \<open>0x06\<close>, then \<open>(64 - ((len x + 1) mod 64)) mod 64\<close> zero bytes, with the final byte
  replaced by its OR with \<open>0x80\<close>; its length is a multiple of 64; and the word stream
  reads each consecutive 8 bytes as a big-endian unsigned 64-bit integer.
\<close>

theorem padding_and_encoding:
  "padded_buffer x = Inr (spec_padded x)
   \<and> length (spec_padded x) mod 64 = 0
   \<and> frombuffer_be_u64 (spec_padded x)
       = Inr (map (spec_be_word (spec_padded x)) [0..<length (spec_padded x) div 8])"
  using padded_buffer_spec spec_padded_mod64 frombuffer_spec [OF spec_padded_mod8] by blast

text \<open>
  Claim C4. When \<open>(len x + 1) mod 64 = 0\<close>, no zero byte is appended: the padded
  buffer is \<open>x\<close> followed by the single byte \<open>0x86\<close>, the domain separator \<open>0x06\<close>
  ORed with \<open>0x80\<close>; its length is \<open>len x + 1\<close>, a multiple of 64.
\<close>

theorem padding_full_block:
  assumes "(length x + 1) mod 64 = 0"
  shows "padded_buffer x = Inr (x @ [0x86])
         \<and> length (x @ [0x86::byte]) = length x + 1
         \<and> length (x @ [0x86::byte]) mod 64 = 0
         \<and> last (x @ [0x86::byte]) = 0x06 OR 0x80"
  using assms by (simp add: padded_buffer_def Let_def)

theorem padding_full_block_witness:
  "(length (replicate 63 (0::byte)) + 1) mod 64 = 0
   \<and> padded_buffer (replicate 63 0) = Inr (replicate 63 0 @ [0x86])
   \<and> last (replicate 63 0 @ [0x86::byte]) = 0x86"
  using padding_full_block [of "replicate 63 0"] by simp

section \<open>The permutation engine does what the specification describes\<close>

lemma fold_agree:
  assumes "\<And>i s. i \<in> set xs \<Longrightarrow> P s \<Longrightarrow> f i s = g i s \<and> P (f i s)" and "P s"
  shows "fold f xs s = fold g xs s \<and> P (fold f xs s)"
  using assms
proof (induction xs arbitrary: s)
  case Nil
  then show ?case by simp
next
  case (Cons x xs)
  have "f x s = g x s \<and> P (f x s)" by (rule Cons.prems(1)) (simp, rule Cons.prems(2))
  then have step: "f x s = g x s" "P (f x s)" by (rule conjunct1, rule conjunct2)
  have "fold f xs (f x s) = fold g xs (f x s) \<and> P (fold f xs (f x s))"
  proof (rule Cons.IH)
    fix i s' assume "i \<in> set xs" "P s'"
    then show "f i s' = g i s' \<and> P (f i s')" using Cons.prems(1) [of i s'] by auto
  next
    show "P (f x s)" by (rule step(2))
  qed
  then have ih: "fold f xs (f x s) = fold g xs (f x s)" "P (fold f xs (f x s))"
    by (rule conjunct1, rule conjunct2)
  have "fold f (x # xs) s = fold f xs (f x s)" by simp
  also have "\<dots> = fold g xs (f x s)" by (rule ih(1))
  also have "\<dots> = fold g (x # xs) s" by (simp add: step(1))
  finally have "fold f (x # xs) s = fold g (x # xs) s" .
  moreover have "P (fold f (x # xs) s)" using ih(2) by simp
  ultimately show ?case by (rule conjI)
qed

lemma rotl_numeral11: "rotl x 11 = word_rotl 11 x"
  using rotl_of_nat [of x 11] by simp

lemma word_add_mod: "word_of_nat ((unat a + unat b) mod 2 ^ 64) = (a + b :: u64)"
proof -
  have eq: "(unat a + unat b) mod 2 ^ 64 = unat (a + b)" by (simp add: unat_word_ariths)
  show ?thesis unfolding eq by simp
qed

lemma inject_spec: "inject r s = spec_inject r s"
  by (simp only: inject_def spec_inject_def Let_def rotl_of_nat nth_list_update_neq)

lemma length_inject: "length (inject r s) = length s"
  by (simp add: inject_def Let_def)

lemma mix_spec:
  assumes "length s = 16" "i < 16"
  shows "mix r i s = spec_pair r i s"
proof -
  define t where "t = target r i"
  have t: "t \<noteq> i" "t < 16"
    using assms(2) by (simp_all add: t_def target_neq target_less)
  have t3: "(i + ((r mod 7) + 1)) mod 16 = t"
    unfolding t_def target_def offset_def ..
  have "mix r i s = s[i := s ! i + s ! t, t := word_rotl (19 + i + r) (s ! t XOR (s ! i + s ! t))]"
    unfolding mix_def t_def [symmetric] Let_def mask64 rotl_of_nat
    using assms t(1,2) by simp
  moreover have "spec_pair r i s = s[i := s ! i + s ! t, t := word_rotl (19 + i + r) (s ! t XOR (s ! i + s ! t))]"
    unfolding spec_pair_def t3 Let_def word_add_mod word_rotl_mod ..
  ultimately show ?thesis by simp
qed

lemma length_mix: "length (mix r i s) = length s"
  by (simp add: mix_def Let_def)

lemma shred_spec: "shred i s = spec_diffuse i s"
  by (simp add: shred_def spec_diffuse_def rotl_numeral11)

lemma length_shred: "length (shred i s) = length s"
  by (simp add: shred_def)

lemma round_spec:
  assumes "length s = 16"
  shows "vortex_round r s = spec_round r s \<and> length (vortex_round r s) = 16"
proof -
  let ?P = "\<lambda>s::u64 list. length s = 16"
  have a: "?P (inject r s)" using assms by (simp add: length_inject)
  have b: "fold (mix r) [0..<16] (inject r s) = fold (spec_pair r) [0..<16] (inject r s)
           \<and> ?P (fold (mix r) [0..<16] (inject r s))"
  proof (rule fold_agree [where P = ?P])
    fix i and s :: "u64 list" assume "i \<in> set [0..<16]" "length s = 16"
    then show "mix r i s = spec_pair r i s \<and> length (mix r i s) = 16"
      using mix_spec [of s i r] length_mix [of r i s] by simp
  qed (rule a)
  have c: "fold shred [0..<15] t = fold spec_diffuse [0..<15] t \<and> ?P (fold shred [0..<15] t)"
    if "?P t" for t
  proof (rule fold_agree [where P = ?P])
    fix i and s :: "u64 list" assume "i \<in> set [0..<15]" "length s = 16"
    then show "shred i s = spec_diffuse i s \<and> length (shred i s) = 16"
      using shred_spec [of i s] length_shred [of i s] by simp
  qed (rule that)
  have d: "vortex_round r s = fold shred [0..<15] (fold (mix r) [0..<16] (inject r s))"
    by (simp add: vortex_round_def Let_def)
  have e: "spec_round r s = fold spec_diffuse [0..<15] (fold (spec_pair r) [0..<16] (inject r s))"
    by (simp add: spec_round_def inject_spec)
  note b1 = b [THEN conjunct1, symmetric] and b2 = b [THEN conjunct2]
  show ?thesis unfolding d e b1 by (rule c [OF b2])
qed

lemma vortex_p_spec:
  assumes "length s = 16"
  shows "vortex_p s = spec_permutation s \<and> length (vortex_p s) = 16"
  unfolding vortex_p_def spec_permutation_def
proof (rule fold_agree [where P = "\<lambda>s. length s = 16"])
  fix r and s :: "u64 list" assume "r \<in> set [0..<12]" "length s = 16"
  then show "vortex_round r s = spec_round r s \<and> length (vortex_round r s) = 16"
    using round_spec [of s r] by blast
qed (rule assms)


text \<open>
  Claim C2. On a state of 16 lanes, \<open>vortex_p\<close> is the 12 rounds \<open>r = 0..11\<close> of the
  specification, each the constant injection, the 16 pair steps in ascending order and
  the 15 diffusion steps in ascending order. It reads the state and \<open>RC\<close> only (its 12
  entries, at the indices 0..11), returns a state of 16 lanes, and every lane index it
  uses is less than 16: it has no error condition.
\<close>

theorem vortex_p_rounds:
  assumes "length s = 16"
  shows "vortex_p s = spec_permutation s
         \<and> length (vortex_p s) = 16
         \<and> length RC = 12
         \<and> target r i < 16"
proof -
  note spec = vortex_p_spec [OF assms]
  show ?thesis
    by (intro conjI spec [THEN conjunct1] spec [THEN conjunct2]) (simp_all add: RC_def target_less)
qed

theorem vortex_p_rounds_witness:
  "length (replicate 16 (0::u64)) = 16
   \<and> vortex_p (replicate 16 0) = spec_permutation (replicate 16 0)
   \<and> length (vortex_p (replicate 16 0)) = 16"
proof -
  have h: "length (replicate 16 (0::u64)) = 16" by simp
  show ?thesis using h vortex_p_rounds [OF h, of 0 0] by blast
qed

section \<open>The permutation engine is a bijection\<close>

lemma fold_inj:
  assumes inj: "\<And>i s t. i \<in> set xs \<Longrightarrow> P s \<Longrightarrow> P t \<Longrightarrow> f i s = f i t \<Longrightarrow> s = t"
    and pres: "\<And>i s. i \<in> set xs \<Longrightarrow> P s \<Longrightarrow> P (f i s)"
    and "P s" "P t" "fold f xs s = fold f xs t"
  shows "s = t"
  using assms
proof (induction xs arbitrary: s t)
  case Nil
  then show ?case by simp
next
  case (Cons x xs)
  have ps: "P (f x s)" and pt: "P (f x t)"
    using Cons.prems(2) [of x] Cons.prems(3,4) by simp_all
  have eq: "fold f xs (f x s) = fold f xs (f x t)" using Cons.prems(5) by simp
  have "f x s = f x t"
  proof (rule Cons.IH [OF _ _ ps pt eq])
    fix i s t assume "i \<in> set xs" "P s" "P t" "f i s = f i t"
    then show "s = t" using Cons.prems(1) [of i s t] by simp
  next
    fix i s assume "i \<in> set xs" "P s"
    then show "P (f i s)" using Cons.prems(2) [of i s] by simp
  qed
  then show ?case using Cons.prems(1) [of x s t] Cons.prems(3,4) by simp
qed

lemma word_rotl_inj: "word_rotl k x = word_rotl k y \<Longrightarrow> x = y" for x y :: u64
  by (metis word_rot_lr)

lemma xor_right_inj: "x XOR a = y XOR a \<Longrightarrow> x = y" for x y a :: u64
proof -
  assume "x XOR a = y XOR a"
  then have "(x XOR a) XOR a = (y XOR a) XOR a" by simp
  then show ?thesis by (simp add: xor.assoc)
qed

lemma mix_lanes:
  assumes "length s = 16" "i < 16"
  shows "mix r i s = s[i := s ! i + s ! target r i,
           target r i := word_rotl (19 + i + r) (s ! target r i XOR (s ! i + s ! target r i))]"
  unfolding mix_def Let_def mask64 rotl_of_nat
  using assms target_neq [of i r] target_less [of r i] by simp

lemma inject_inj:
  assumes "length s = 16" "length t = 16" "inject r s = inject r t"
  shows "s = t"
proof (rule nth_equalityI)
  show "length s = length t" using assms by simp
next
  fix j assume "j < length s"
  then have j: "j < 16" using assms by simp
  have "inject r s ! j = inject r t ! j" using assms(3) by simp
  then show "s ! j = t ! j"
    using assms(1,2) j unfolding inject_spec spec_inject_def
    by (cases "j = 15"; cases "j = 0") (auto dest: xor_right_inj)
qed

lemma shred_inj:
  assumes "length s = 16" "length t = 16" "i < 15" "shred i s = shred i t"
  shows "s = t"
proof (rule nth_equalityI)
  show "length s = length t" using assms by simp
next
  fix j assume "j < length s"
  then have j: "j < 16" using assms by simp
  have e: "shred i s ! j = shred i t ! j" for j using assms(4) by simp
  have i: "s ! i = t ! i" using e [of i] assms(1,2,3) by (simp add: shred_def)
  show "s ! j = t ! j"
  proof (cases "j = i + 1")
    case True
    then show ?thesis using e [of "i + 1"] assms(1,2,3) i
      by (auto simp: shred_def dest: xor_right_inj)
  next
    case False
    then show ?thesis using e [of j] assms(1,2,3) j by (simp add: shred_def)
  qed
qed

lemma mix_inj:
  assumes "length s = 16" "length t = 16" "i < 16" "mix r i s = mix r i t"
  shows "s = t"
proof (rule nth_equalityI)
  show "length s = length t" using assms by simp
next
  define p where "p = target r i"
  have p: "p \<noteq> i" "p < 16" using assms(3) by (simp_all add: p_def target_neq target_less)
  have e: "mix r i s ! j = mix r i t ! j" for j using assms(4) by simp
  have a: "s ! i + s ! p = t ! i + t ! p"
    using e [of i] assms(1,2,3) p by (simp add: mix_lanes p_def [symmetric])
  have "word_rotl (19 + i + r) (s ! p XOR (s ! i + s ! p))
        = word_rotl (19 + i + r) (t ! p XOR (t ! i + t ! p))"
    using e [of p] assms(1,2,3) p by (simp add: mix_lanes p_def [symmetric])
  then have "s ! p XOR (s ! i + s ! p) = t ! p XOR (s ! i + s ! p)"
    unfolding a [symmetric] by (rule word_rotl_inj)
  then have sp: "s ! p = t ! p" by (rule xor_right_inj)
  with a have si: "s ! i = t ! i" by simp
  fix j assume "j < length s"
  then have j: "j < 16" using assms by simp
  show "s ! j = t ! j"
  proof (cases "j = i \<or> j = p")
    case True
    then show ?thesis using sp si by auto
  next
    case False
    then show ?thesis using e [of j] assms(1,2,3) p j by (simp add: mix_lanes p_def [symmetric])
  qed
qed

lemma fold_length:
  assumes "\<And>i s. length (f i s) = length s"
  shows "length (fold f xs s) = length s"
  using assms by (induction xs arbitrary: s) simp_all

lemma round_length: "length (vortex_round r s) = length s"
  by (simp add: vortex_round_def Let_def length_inject length_mix length_shred fold_length)

lemma vortex_p_length: "length (vortex_p s) = length s"
  by (simp add: vortex_p_def round_length fold_length)

lemma round_inj:
  assumes "length s = 16" "length t = 16" "vortex_round r s = vortex_round r t"
  shows "s = t"
proof -
  let ?P = "\<lambda>s::u64 list. length s = 16"
  let ?m = "\<lambda>s. fold (mix r) [0..<16] (inject r s)"
  have m: "?P (?m u)" if "?P u" for u
    using that by (simp add: length_mix length_inject fold_length)
  have e: "fold shred [0..<15] (?m s) = fold shred [0..<15] (?m t)"
    using assms(3) by (simp add: vortex_round_def Let_def)
  have "?m s = ?m t"
  proof (rule fold_inj [where P = ?P and f = shred and xs = "[0..<15]"])
    fix i and a b :: "u64 list"
    assume "i \<in> set [0..<15]" "length a = 16" "length b = 16" "shred i a = shred i b"
    then show "a = b" by (intro shred_inj [of a b i]) simp_all
  next
    fix i and a :: "u64 list" assume "length a = 16"
    then show "length (shred i a) = 16" by (simp add: length_shred)
  next
    show "?P (?m s)" by (rule m) (rule assms(1))
    show "?P (?m t)" by (rule m) (rule assms(2))
    show "fold shred [0..<15] (?m s) = fold shred [0..<15] (?m t)" by (rule e)
  qed
  then have "inject r s = inject r t"
  proof (rule fold_inj [where P = ?P and f = "mix r" and xs = "[0..<16]", rotated -1])
    fix i and a b :: "u64 list"
    assume "i \<in> set [0..<16]" "length a = 16" "length b = 16" "mix r i a = mix r i b"
    then show "a = b" by (intro mix_inj [of a b i r]) simp_all
  next
    fix i and a :: "u64 list" assume "length a = 16"
    then show "length (mix r i a) = 16" by (simp add: length_mix)
  next
    show "?P (inject r s)" using assms(1) by (simp add: length_inject)
    show "?P (inject r t)" using assms(2) by (simp add: length_inject)
  qed
  then show ?thesis by (rule inject_inj [OF assms(1,2)])
qed

lemma vortex_p_inj:
  assumes "length s = 16" "length t = 16" "vortex_p s = vortex_p t"
  shows "s = t"
proof (rule fold_inj [where P = "\<lambda>s. length s = 16" and f = vortex_round and xs = "[0..<12]"])
  fix r and a b :: "u64 list"
  assume "length a = 16" "length b = 16" "vortex_round r a = vortex_round r b"
  then show "a = b" by (rule round_inj)
next
  fix r and a :: "u64 list" assume "length a = 16"
  then show "length (vortex_round r a) = 16" by (simp add: round_length)
next
  show "length s = 16" "length t = 16" by (rule assms)+
  show "fold vortex_round [0..<12] s = fold vortex_round [0..<12] t"
    using assms(3) by (simp only: vortex_p_def)
qed

lemma finite_states: "finite {s :: u64 list. length s = 16}"
  using finite_lists_length_eq [of "UNIV :: u64 set" 16] by simp

text \<open>
  Claim C10. \<open>vortex_p\<close> is injective on the states of 16 lanes, and a bijection on
  them: the constant injection, every pair step and every diffusion step can be undone
  (the lemmas above), so two distinct states never have the same image.
\<close>

theorem vortex_p_bijective:
  "inj_on vortex_p {s. length s = 16}
   \<and> bij_betw vortex_p {s. length s = 16} {s. length s = 16}"
proof -
  let ?A = "{s :: u64 list. length s = 16}"
  have i: "inj_on vortex_p ?A" by (rule inj_onI) (simp add: vortex_p_inj)
  have "vortex_p ` ?A \<subseteq> ?A" by (auto simp: vortex_p_length)
  then have "vortex_p ` ?A = ?A" by (rule endo_inj_surj [OF finite_states _ i])
  with i show ?thesis by (simp add: bij_betw_def)
qed


theorem vortex_p_bijective_witness:
  "vortex_p (replicate 16 0) \<noteq> vortex_p (replicate 16 1)"
proof
  assume "vortex_p (replicate 16 0) = vortex_p (replicate 16 1)"
  then have "replicate 16 (0::u64) = replicate 16 1"
    by (rule vortex_p_bijective [THEN conjunct1, THEN inj_onD]) simp_all
  then show False by simp
qed

section \<open>The absorbing loop and the digest\<close>

lemma xor_loop:
  "n \<le> length st \<Longrightarrow>
   fold (\<lambda>j st. st[j := st ! j XOR f j]) [0..<n] st
   = map (\<lambda>j. if j < n then st ! j XOR f j else st ! j) [0..<length st]"
proof (induction n)
  case 0
  then show ?case by (simp add: map_nth)
next
  case (Suc n)
  then have ih: "fold (\<lambda>j st. st[j := st ! j XOR f j]) [0..<n] st
      = map (\<lambda>j. if j < n then st ! j XOR f j else st ! j) [0..<length st]" by simp
  show ?case
    unfolding upt_Suc_append [OF le0] fold_append o_apply ih
    using Suc.prems by (intro nth_equalityI) (auto simp: nth_list_update less_Suc_eq)
qed

lemma xor_block_lanes:
  assumes "length st = 16" "length blk = 8"
  shows "map (\<lambda>j. if j < 8 then st ! j XOR blk ! j else st ! j) [0..<length st]
         = spec_xor_block blk st"
  unfolding spec_xor_block_def
  using assms by (intro nth_equalityI) (auto simp: nth_append)

lemma absorb_block_spec:
  assumes "length st = 16" "8 * i + 8 \<le> length ws"
  shows "absorb_block ws i st = vortex_p (spec_xor_block (take 8 (drop (8 * i) ws)) st)"
proof -
  let ?blk = "take 8 (drop (8 * i) ws)"
  have len: "length ?blk = 8" using assms(2) by simp
  have "fold (\<lambda>j st. st[j := st ! j XOR ws ! (i * 8 + j)]) [0..<8] st
        = map (\<lambda>j. if j < 8 then st ! j XOR ws ! (i * 8 + j) else st ! j) [0..<length st]"
    by (rule xor_loop) (simp add: assms(1))
  also have "\<dots> = map (\<lambda>j. if j < 8 then st ! j XOR ?blk ! j else st ! j) [0..<length st]"
    using assms(2) by (intro map_cong) (auto simp: mult.commute)
  also have "\<dots> = spec_xor_block ?blk st" by (rule xor_block_lanes [OF assms(1) len])
  finally show ?thesis by (simp add: absorb_block_def Let_def)
qed

lemma length_spec_xor_block:
  "length st = 16 \<Longrightarrow> length blk = 8 \<Longrightarrow> length (spec_xor_block blk st) = 16"
  by (simp add: spec_xor_block_def)

lemma block_in_range:
  assumes "i \<in> set [0..<length ws div 8]"
  shows "8 * i + 8 \<le> length (ws :: 'a list)"
proof -
  from assms have "Suc i \<le> length ws div 8" by simp
  then have "8 * Suc i \<le> 8 * (length ws div 8)" by (rule mult_le_mono2)
  also have "\<dots> \<le> length ws" by simp
  finally show ?thesis by simp
qed

lemma vortex_core_absorb_spec:
  assumes "length st = 16"
  shows "vortex_core_absorb st ws = spec_absorb st (spec_blocks ws)
         \<and> length (vortex_core_absorb st ws) = 16"
proof -
  let ?g = "\<lambda>k st. vortex_p (spec_xor_block (take 8 (drop (8 * k) ws)) st)"
  have a: "fold (absorb_block ws) [0..<length ws div 8] st = fold ?g [0..<length ws div 8] st
        \<and> length (fold (absorb_block ws) [0..<length ws div 8] st) = 16"
  proof (rule fold_agree [where P = "\<lambda>s. length s = 16"])
    fix i and s :: "u64 list"
    assume i: "i \<in> set [0..<length ws div 8]" and s: "length s = 16"
    have r: "8 * i + 8 \<le> length ws" by (rule block_in_range [OF i])
    have e: "absorb_block ws i s = ?g i s" by (rule absorb_block_spec [OF s r])
    have "length (?g i s) = 16" using s r by (simp add: vortex_p_length length_spec_xor_block)
    with e show "absorb_block ws i s = ?g i s \<and> length (absorb_block ws i s) = 16" by simp
  qed (rule assms)
  have b: "spec_absorb st (spec_blocks ws) = fold ?g [0..<length ws div 8] st"
    by (simp add: spec_absorb_def spec_blocks_def fold_map o_def)
  show ?thesis unfolding vortex_core_absorb_def Let_def b by (rule a)
qed

lemma length_IV: "length VORTEX_IV = 16"
  by (simp add: VORTEX_IV_def)

lemma concat_chunks: "concat (map (\<lambda>k. take 8 (drop (8 * k) ws)) [0..<n]) = take (8 * n) ws"
proof (induction n)
  case 0
  then show ?case by simp
next
  case (Suc n)
  have "take (8 * Suc n) ws = take (8 * n + 8) ws" by (simp add: add.commute)
  also have "\<dots> = take (8 * n) ws @ take 8 (drop (8 * n) ws)" by (rule take_add)
  finally show ?case using Suc.IH by simp
qed

lemma concat_spec_blocks:
  assumes "length ws mod 8 = 0"
  shows "concat (spec_blocks ws) = ws"
proof -
  have "8 * (length ws div 8) = length ws"
    using assms by (simp add: mod_eq_0_iff_dvd)
  then show ?thesis unfolding spec_blocks_def concat_chunks by simp
qed

lemma digest_unfold:
  "vortex_v512_v1 data
   = Inr (concat (map (\<lambda>x. format_016x (unat x))
            (take 8 (vortex_p (vortex_core_absorb VORTEX_IV (word_stream data))))))"
proof -
  have "frombuffer_be_u64 (spec_padded data) = Inr (word_stream data)"
    unfolding word_stream_def by (rule frombuffer_spec [OF spec_padded_mod8])
  then show ?thesis by (simp add: vortex_v512_v1_def padded_buffer_spec Let_def)
qed

lemma length_word_stream: "length (word_stream x) mod 8 = 0"
proof -
  have "64 dvd length (spec_padded x)" using spec_padded_mod64 [of x] by (simp add: mod_eq_0_iff_dvd)
  then obtain m where m: "length (spec_padded x) = 64 * m" by (rule dvdE)
  have "length (word_stream x) = 8 * m" by (simp add: word_stream_def m)
  then show ?thesis by simp
qed

lemma frombuffer_word_stream: "frombuffer_be_u64 (spec_padded data) = Inr (word_stream data)"
  unfolding word_stream_def by (rule frombuffer_spec [OF spec_padded_mod8])

lemma length_final_state:
  "length (vortex_p (vortex_core_absorb VORTEX_IV ws)) = 16"
  using vortex_core_absorb_spec [OF length_IV, of ws, THEN conjunct2] by (simp add: vortex_p_length)

lemma take8_lanes: "length st = 16 \<Longrightarrow> take 8 st = map (\<lambda>i. st ! i) [0..<8]"
  by (rule nth_equalityI) simp_all

text \<open>
  Claim C1. The state starts as the IV; the word stream of the padded input, whose length
  is a multiple of 8, is cut into consecutive blocks of 8 words; each block in turn is
  XORed into lanes 0..7 and followed by one run of the permutation; after the last
  block the permutation runs once more with nothing XORed in; the digest is then read
  from the first 8 lanes.
\<close>

theorem digest_composition:
  "vortex_v512_v1 data
     = Inr (concat (map (\<lambda>x. format_016x (unat x)) (take 8 (spec_sponge (word_stream data)))))
   \<and> padded_buffer data = Inr (spec_padded data)
   \<and> frombuffer_be_u64 (spec_padded data) = Inr (word_stream data)
   \<and> length (word_stream data) mod 8 = 0
   \<and> concat (spec_blocks (word_stream data)) = word_stream data"
proof (intro conjI)
  show "padded_buffer data = Inr (spec_padded data)" by (rule padded_buffer_spec)
  have "vortex_core_absorb VORTEX_IV (word_stream data)
        = spec_absorb VORTEX_IV (spec_blocks (word_stream data))"
    by (rule vortex_core_absorb_spec [OF length_IV, THEN conjunct1])
  then show "vortex_v512_v1 data
     = Inr (concat (map (\<lambda>x. format_016x (unat x)) (take 8 (spec_sponge (word_stream data)))))"
    by (simp only: digest_unfold spec_sponge_def)
  show "frombuffer_be_u64 (spec_padded data) = Inr (word_stream data)"
    by (rule frombuffer_word_stream)
  show "length (word_stream data) mod 8 = 0" by (rule length_word_stream)
  then show "concat (spec_blocks (word_stream data)) = word_stream data"
    by (rule concat_spec_blocks)
qed

section \<open>The format of the digest\<close>

lemma hex_of_nat_small: "n < 16 \<Longrightarrow> hex_of_nat n = [hex_digit n]"
  by (simp add: hex_of_nat.simps)

lemma hex_of_nat_big:
  "16 \<le> n \<Longrightarrow> hex_of_nat n = hex_of_nat (n div 16) @ [hex_digit (n mod 16)]"
  by (subst hex_of_nat.simps) simp

lemma digits_Suc: "digits (Suc k) n = digits k (n div 16) @ [hex_digit (n mod 16)]"
proof -
  have "(n div 16 ^ (k - j)) mod 16 = (n div 16 div 16 ^ (k - 1 - j)) mod 16" if "j < k" for j
  proof -
    from that have "k - j = Suc (k - 1 - j)" by simp
    then have "(16::nat) ^ (k - j) = 16 * 16 ^ (k - 1 - j)" by simp
    then show ?thesis by (simp add: div_mult2_eq)
  qed
  then show ?thesis by (simp add: digits_def)
qed

lemma digits_zero: "digits k 0 = replicate k CHR ''0''"
  by (induction k) (simp_all add: digits_def hex_digit_def replicate_append_same map_replicate_const)

lemma pad_digits:
  "n < 16 ^ Suc k \<Longrightarrow>
   length (hex_of_nat n) \<le> Suc k \<and>
   replicate (Suc k - length (hex_of_nat n)) CHR ''0'' @ hex_of_nat n = digits (Suc k) n"
proof (induction k arbitrary: n)
  case 0
  then show ?case by (simp add: hex_of_nat_small digits_def)
next
  case (Suc k)
  show ?case
  proof (cases "n < 16")
    case True
    then show ?thesis
      by (simp add: hex_of_nat_small digits_Suc [of "Suc k"] digits_zero del: replicate_Suc)
  next
    case False
    then have big: "hex_of_nat n = hex_of_nat (n div 16) @ [hex_digit (n mod 16)]"
      by (simp add: hex_of_nat_big)
    from Suc.prems have "n div 16 < 16 ^ Suc k" by (simp add: less_mult_imp_div_less)
    from Suc.IH [OF this] show ?thesis
      unfolding big digits_Suc [of "Suc k" n] by simp
  qed
qed

lemma hex_table: "map hex_digit [0..<16] = map spec_hex_char [0..<16]"
  by code_simp

lemma hex_digit_spec: "d < 16 \<Longrightarrow> hex_digit d = spec_hex_char d"
proof -
  assume d: "d < 16"
  have "map hex_digit [0..<16] ! d = map spec_hex_char [0..<16] ! d" by (simp only: hex_table)
  then show ?thesis using d by (simp del: upt_Suc)
qed

lemma spec_hex_alphabet: "map spec_hex_char [0..<16] = ''0123456789abcdef''"
  by code_simp

lemma spec_hex16_example: "spec_hex16 0x0123456789abcdef = ''0123456789abcdef''"
  by code_simp

lemma format_016x_spec: "format_016x (unat w) = spec_hex16 w"
proof -
  have "unat w < 2 ^ 64" using unsigned_less [of w] by simp
  also have "(2::nat) ^ 64 = 16 ^ Suc 15" by simp
  finally have "replicate (Suc 15 - length (hex_of_nat (unat w))) CHR ''0'' @ hex_of_nat (unat w)
        = digits (Suc 15) (unat w)" using pad_digits by blast
  then have "format_016x (unat w) = digits (Suc 15) (unat w)" by (simp add: format_016x_def)
  also have "\<dots> = spec_hex16 w"
    unfolding digits_def spec_hex16_def by (rule map_cong) (simp_all add: hex_digit_spec)
  finally show ?thesis .
qed

lemma length_spec_hex16: "length (spec_hex16 w) = 16"
  by (simp add: spec_hex16_def)

lemma hex_digit_lower: "d < 16 \<Longrightarrow> hex_digit d \<in> set ''0123456789abcdef''"
  unfolding hex_digit_def by (rule nth_mem) simp

lemma spec_hex_char_lower: "d < 16 \<Longrightarrow> spec_hex_char d \<in> set ''0123456789abcdef''"
  using hex_digit_lower [of d] by (simp only: hex_digit_spec)

lemma set_spec_hex16: "set (spec_hex16 w) \<subseteq> set ''0123456789abcdef''"
  unfolding spec_hex16_def using spec_hex_char_lower by (auto simp del: set_simps)

lemma length_concat_const:
  "(\<And>x. length (f x) = c) \<Longrightarrow> length (concat (map f xs)) = c * length xs"
  by (induction xs) simp_all


lemma digest_lanes_hex:
  "vortex_v512_v1 x
     = Inr (concat (map (\<lambda>i. spec_hex16 (vortex_p (vortex_core_absorb VORTEX_IV (word_stream x)) ! i))
              [0..<8]))"
proof -
  let ?st = "vortex_p (vortex_core_absorb VORTEX_IV (word_stream x))"
  have "vortex_v512_v1 x = Inr (concat (map spec_hex16 (take 8 ?st)))"
    by (simp only: digest_unfold format_016x_spec)
  also have "take 8 ?st = map (\<lambda>i. ?st ! i) [0..<8]"
    by (rule take8_lanes) (rule length_final_state)
  finally show ?thesis by (simp add: o_def)
qed

lemma digest_is_128_hex:
  "\<exists>d. vortex_v512_v1 x = Inr d \<and> length d = 128 \<and> set d \<subseteq> set ''0123456789abcdef''"
proof -
  let ?st = "vortex_p (vortex_core_absorb VORTEX_IV (word_stream x))"
  let ?d = "concat (map (\<lambda>i. spec_hex16 (?st ! i)) [0..<8])"
  have d: "vortex_v512_v1 x = Inr ?d" by (rule digest_lanes_hex)
  have "length ?d = 16 * length [0..<8::nat]"
    by (rule length_concat_const) (rule length_spec_hex16)
  then have l: "length ?d = 128" by simp
  have s: "set ?d \<subseteq> set ''0123456789abcdef''"
    using set_spec_hex16 by (auto simp del: set_simps)
  from d l s show ?thesis by blast
qed

text \<open>
  Claim C5. For every input, the empty one included, the digest is the concatenation, in
  lane order 0 to 7, of the 16 lowercase hexadecimal digits of each of the final lanes
  0..7, the most significant digit first: 128 characters, all of them lowercase
  hexadecimal digits. The rendering of a lane, \<open>spec_hex16\<close>, is stated with the
  alphabet \<open>spec_hex_char\<close>, which owes nothing to the table the program's formatting
  is modelled with.
\<close>

theorem digest_format:
  "vortex_v512_v1 x
     = Inr (concat (map (\<lambda>i. spec_hex16 (vortex_p (vortex_core_absorb VORTEX_IV (word_stream x)) ! i))
              [0..<8]))
   \<and> (\<exists>d. vortex_v512_v1 x = Inr d \<and> length d = 128 \<and> set d \<subseteq> set ''0123456789abcdef'')
   \<and> map spec_hex_char [0..<16] = ''0123456789abcdef''"
  by (intro conjI digest_lanes_hex digest_is_128_hex spec_hex_alphabet)

theorem digest_format_witness:
  "\<exists>d. vortex_v512_v1 [] = Inr d \<and> length d = 128 \<and> set d \<subseteq> set ''0123456789abcdef''"
  using digest_format [of "[]"] by blast

section \<open>The digest on the store\<close>

lemma runs_on_update: "runs_on s h \<Longrightarrow> runs_on s (h[s := x])"
  by (simp add: runs_on_def)

lemma fold_lift:
  assumes "\<And>i h. runs_on s h \<Longrightarrow> g i h = h[s := f i (h ! s)]" and "runs_on s h"
  shows "fold g xs h = h[s := fold f xs (h ! s)]"
  using assms(2)
proof (induction xs arbitrary: h)
  case Nil
  then show ?case by simp
next
  case (Cons x xs)
  have s: "s < length h" using Cons.prems by (simp add: runs_on_def)
  have "fold g (x # xs) h = fold g xs (h[s := f x (h ! s)])"
    by (simp add: assms(1) [OF Cons.prems])
  also have "\<dots> = (h[s := f x (h ! s)])[s := fold f xs ((h[s := f x (h ! s)]) ! s)]"
    by (rule Cons.IH) (rule runs_on_update [OF Cons.prems])
  also have "\<dots> = h[s := fold f (x # xs) (h ! s)]" using s by simp
  finally show ?case .
qed

lemma inject_st_lift: "runs_on s h \<Longrightarrow> inject_st s r h = h[s := inject r (h ! s)]"
  by (simp add: runs_on_def inject_st_def inject_def Let_def load_def poke_def)

lemma mix_st_lift: "runs_on s h \<Longrightarrow> mix_st s r i h = h[s := mix r i (h ! s)]"
  by (simp add: runs_on_def mix_st_def mix_def Let_def load_def poke_def)

lemma shred_st_lift: "runs_on s h \<Longrightarrow> shred_st s i h = h[s := shred i (h ! s)]"
  by (simp add: runs_on_def shred_st_def shred_def load_def poke_def)

lemma vortex_round_st_lift:
  assumes "runs_on s h"
  shows "vortex_round_st s r h = h[s := vortex_round r (h ! s)]"
proof -
  have s: "s < length h" using assms by (simp add: runs_on_def)
  have a: "inject_st s r h = h[s := inject r (h ! s)]" by (rule inject_st_lift [OF assms])
  have b: "fold (mix_st s r) [0..<16] (h[s := x]) = h[s := fold (mix r) [0..<16] x]" for x
    using fold_lift [of s "mix_st s r" "mix r" "h[s := x]" "[0..<16]"]
      mix_st_lift runs_on_update [OF assms] s by simp
  have c: "fold (shred_st s) [0..<15] (h[s := x]) = h[s := fold shred [0..<15] x]" for x
    using fold_lift [of s "shred_st s" shred "h[s := x]" "[0..<15]"]
      shred_st_lift runs_on_update [OF assms] s by simp
  show ?thesis by (simp only: vortex_round_st_def vortex_round_def Let_def a b c)
qed

lemma vortex_p_st_lift: "runs_on s h \<Longrightarrow> vortex_p_st s h = h[s := vortex_p (h ! s)]"
  unfolding vortex_p_st_def vortex_p_def
  by (rule fold_lift) (simp_all add: vortex_round_st_lift)

lemma xor_word_st_lift:
  "runs_on s h \<Longrightarrow>
   poke h s j (load h s j XOR w) = h[s := (h ! s)[j := h ! s ! j XOR w]]"
  by (simp add: load_def poke_def)

lemma absorb_block_st_lift:
  assumes "runs_on s h"
  shows "absorb_block_st s words i h = h[s := absorb_block words i (h ! s)]"
proof -
  let ?f = "\<lambda>j st. st[j := st ! j XOR words ! (i * 8 + j)]"
  let ?g = "\<lambda>j h. poke h s j (load h s j XOR words ! (i * 8 + j))"
  have s: "s < length h" using assms by (simp add: runs_on_def)
  have a: "fold ?g [0..<8] h = h[s := fold ?f [0..<8] (h ! s)]"
    by (rule fold_lift [where f = ?f]) (simp_all add: xor_word_st_lift assms)
  have b: "vortex_p_st s (h[s := x]) = h[s := vortex_p x]" for x
    using vortex_p_st_lift [OF runs_on_update [OF assms], of x] s by simp
  show ?thesis by (simp only: absorb_block_st_def absorb_block_def Let_def a b)
qed

lemma vortex_core_absorb_st_lift:
  "runs_on s h \<Longrightarrow>
   vortex_core_absorb_st s words h = h[s := vortex_core_absorb (h ! s) words]"
  unfolding vortex_core_absorb_st_def vortex_core_absorb_def Let_def
  by (rule fold_lift) (simp_all add: absorb_block_st_lift)

lemma runs_on_fresh: "globals_ok h \<Longrightarrow> runs_on (length h) (h @ [x])"
  by (auto simp: globals_ok_def runs_on_def RC_addr_def nth_append)

lemma digest_st_run:
  assumes "globals_ok h"
  shows "vortex_v512_v1_st data h
         = (vortex_v512_v1 data,
            h @ [vortex_p (vortex_core_absorb VORTEX_IV (word_stream data))])"
proof -
  let ?s = "length h"
  let ?h = "h @ [VORTEX_IV]"
  have iv: "h ! IV_addr = VORTEX_IV" using assms by (simp add: globals_ok_def)
  have r: "runs_on ?s (h @ [x])" for x by (rule runs_on_fresh [OF assms])
  have a: "vortex_core_absorb_st ?s ws ?h = h @ [vortex_core_absorb VORTEX_IV ws]" for ws
    by (simp add: vortex_core_absorb_st_lift [OF r])
  have b: "vortex_p_st ?s (h @ [x]) = h @ [vortex_p x]" for x
    by (simp add: vortex_p_st_lift [OF r])
  show ?thesis
    by (simp add: vortex_v512_v1_st_def copy_def iv padded_buffer_spec frombuffer_word_stream
        a b digest_unfold Let_def)
qed

lemma globals_ok_append: "globals_ok h \<Longrightarrow> globals_ok (h @ xs)"
  by (auto simp: globals_ok_def IV_addr_def RC_addr_def nth_append)

lemma globals_ok_init: "globals_ok init_store"
  by (simp add: globals_ok_def init_store_def IV_addr_def RC_addr_def)

text \<open>
  Claim C9. In a store whose two tables hold their original values, after a digest
  computation \<^verbatim>\<open>VORTEX_IV\<close> still holds its 16 values and \<^verbatim>\<open>RC\<close> its 12; every
  array of the store is as it was. The state is a new array, the copy of the IV at a
  fresh address, and the permutation on it changes that array only.
\<close>

theorem tables_never_mutated:
  assumes "globals_ok h"
  shows "snd (vortex_v512_v1_st data h) ! IV_addr = VORTEX_IV
         \<and> snd (vortex_v512_v1_st data h) ! RC_addr = RC
         \<and> length VORTEX_IV = 16 \<and> length RC = 12
         \<and> take (length h) (snd (vortex_v512_v1_st data h)) = h
         \<and> fst (copy h IV_addr) = length h
         \<and> vortex_p_st (length h) (h @ [x]) = h @ [vortex_p x]"
proof -
  have g: "globals_ok (snd (vortex_v512_v1_st data h))"
    by (simp add: digest_st_run [OF assms] globals_ok_append [OF assms])
  have p: "vortex_p_st (length h) (h @ [x]) = h @ [vortex_p x]"
    by (simp add: vortex_p_st_lift [OF runs_on_fresh [OF assms]])
  show ?thesis
    using g p by (simp add: globals_ok_def digest_st_run [OF assms] copy_def RC_def VORTEX_IV_def)
qed

theorem tables_never_mutated_witness:
  "globals_ok init_store
   \<and> snd (vortex_v512_v1_st [] init_store) ! IV_addr = VORTEX_IV
   \<and> snd (vortex_v512_v1_st [] init_store) ! RC_addr = RC"
  using tables_never_mutated [OF globals_ok_init, of "[]"] globals_ok_init by blast


text \<open>
  Claim C8. The digest is total and deterministic. In every store whose tables hold their
  original values, and for every input, the computation returns a string of 128
  characters and raises nothing; that string is the same in any other such store and
  when the computation is run a second time in the store the first run left behind. It
  is the value of the function \<open>vortex_v512_v1\<close> of the input alone. The empty input
  has a digest.
\<close>

theorem digest_total_deterministic:
  assumes "globals_ok h" "globals_ok h'"
  shows "(\<exists>d. fst (vortex_v512_v1_st data h) = Inr d \<and> length d = 128
              \<and> fst (vortex_v512_v1_st data h') = Inr d
              \<and> fst (vortex_v512_v1_st data (snd (vortex_v512_v1_st data h))) = Inr d
              \<and> vortex_v512_v1 data = Inr d)
         \<and> (\<exists>d. fst (vortex_v512_v1_st [] h) = Inr d \<and> length d = 128)"
proof -
  have g: "globals_ok (snd (vortex_v512_v1_st data h))"
    by (simp add: digest_st_run [OF assms(1)] globals_ok_append [OF assms(1)])
  have r: "fst (vortex_v512_v1_st x k) = vortex_v512_v1 x" if "globals_ok k" for x k
    by (simp add: digest_st_run [OF that])
  obtain d where d: "vortex_v512_v1 data = Inr d" "length d = 128"
    using digest_is_128_hex [of data] by blast
  obtain e where e: "vortex_v512_v1 [] = Inr e" "length e = 128"
    using digest_is_128_hex [of "[]"] by blast
  show ?thesis
    using d e by (simp add: r [OF assms(1)] r [OF assms(2)] r [OF g])
qed

theorem digest_total_deterministic_witness:
  "globals_ok init_store \<and> globals_ok (init_store @ [[]])
   \<and> (\<exists>d. fst (vortex_v512_v1_st [] init_store) = Inr d \<and> length d = 128
           \<and> fst (vortex_v512_v1_st [] (init_store @ [[]])) = Inr d)"
proof -
  have a: "globals_ok init_store" by (rule globals_ok_init)
  have b: "globals_ok (init_store @ [[]])" by (rule globals_ok_append [OF a])
  show ?thesis
    using a b digest_total_deterministic [OF a b, where data = "[]"] by blast
qed

end
